theory Spec2Isabelle
  imports Complex_Main "HOL-Library.AList"
begin

section \<open>Live voting session server (server.js)\<close>

text \<open>
  The server keeps one process-wide slot \<open>currentSession\<close>, mutated by the start
  endpoint, by the subscriber of the vote topic, by \<open>endSession\<close> and by the expiry
  timer. The model passes the state explicitly: the session slot, the timeouts that the
  runtime holds armed, and the log of messages handed to the broker by \<open>publish\<close>.
\<close>

subsection \<open>JavaScript values that the handlers inspect\<close>

text \<open>
  A JavaScript number: NaN, an infinity, or a finite double, read as the rational it
  denotes.
\<close>

datatype jsnum = NaN | PosInfinity | NegInfinity | Finite rat

fun isFinite :: "jsnum \<Rightarrow> bool" where
  "isFinite (Finite r) = True"
| "isFinite _ = False"

text \<open>\<open>dur <= 0\<close>: every comparison with NaN is false.\<close>

fun le_zero :: "jsnum \<Rightarrow> bool" where
  "le_zero (Finite r) = (r \<le> 0)"
| "le_zero NegInfinity = True"
| "le_zero PosInfinity = False"
| "le_zero NaN = False"

text \<open>
  The arithmetic of doubles, \<open>*\<close> and \<open>+\<close> with their rounding and their overflow to
  an infinity, is a parameter of the model: the handlers are defined, and every property
  is proved, for any pair of operations.
\<close>

record arith =
  fmul :: "jsnum \<Rightarrow> jsnum \<Rightarrow> jsnum"
  fadd :: "jsnum \<Rightarrow> jsnum \<Rightarrow> jsnum"

text \<open>
  The concrete runs below use exact arithmetic on finite operands. It agrees with the
  doubles wherever operands and result are integers of small size, as with a duration
  of 5 seconds and clock readings like 1700.
\<close>

fun exact_mul :: "jsnum \<Rightarrow> jsnum \<Rightarrow> jsnum" where
  "exact_mul (Finite a) (Finite b) = Finite (a * b)"
| "exact_mul _ _ = NaN"

fun exact_add :: "jsnum \<Rightarrow> jsnum \<Rightarrow> jsnum" where
  "exact_add (Finite a) (Finite b) = Finite (a + b)"
| "exact_add _ _ = NaN"

definition exact_arith :: arith where
  "exact_arith = \<lparr>fmul = exact_mul, fadd = exact_add\<rparr>"

text \<open>
  A property value of the tally object: a number (a count), or a value that is not a
  number. The only non-numbers the handlers can produce are the non-empty strings that
  \<open>+ 1\<close> yields on an object, a function or a string.
\<close>

datatype tval = Count nat | NonNumber

text \<open>
  The tally is an ordinary object \<open>{}\<close>: the list holds its own properties over the
  prototype \<open>Object.prototype\<close>. The order of the list carries no meaning.
\<close>

type_synonym tally_obj = "(string \<times> tval) list"

definition object_prototype :: "string list" where
  "object_prototype =
     [''constructor'', ''__defineGetter__'', ''__defineSetter__'', ''hasOwnProperty'',
      ''__lookupGetter__'', ''__lookupSetter__'', ''isPrototypeOf'',
      ''propertyIsEnumerable'', ''toString'', ''valueOf'', ''__proto__'',
      ''toLocaleString'']"

text \<open>
  \<open>t[k] = v\<close> for a primitive \<open>v\<close>. An own property is overwritten in place. A key that
  is not an own property is created, except \<open>__proto__\<close>: that name is an accessor of
  \<open>Object.prototype\<close>, whose setter ignores every value that is not an object or
  null, so nothing is stored.
\<close>

definition prop_set :: "string \<Rightarrow> tval \<Rightarrow> tally_obj \<Rightarrow> tally_obj" where
  "prop_set k v t =
     (if k = ''__proto__'' \<and> map_of t k = None then t else AList.update k v t)"

text \<open>
  \<open>t[k]\<close>: the own property if there is one, otherwise what the prototype chain
  gives, a function or (for \<open>__proto__\<close>) the prototype object itself, otherwise
  \<open>undefined\<close>, written \<open>None\<close>.
\<close>

definition prop_get :: "tally_obj \<Rightarrow> string \<Rightarrow> tval option" where
  "prop_get t k =
     (case map_of t k of
        Some v \<Rightarrow> Some v
      | None \<Rightarrow> if k \<in> set object_prototype then Some NonNumber else None)"

text \<open>
  The value of \<open>(t[k] || 0) + 1\<close>. A count \<open>n\<close> gives \<open>n + 1\<close> and \<open>undefined\<close>
  gives \<open>0 + 1\<close>; an object, a function or a non-empty string is truthy and turns
  \<open>+\<close> into string concatenation.
\<close>

definition incremented :: "tally_obj \<Rightarrow> string \<Rightarrow> tval" where
  "incremented t k =
     (case prop_get t k of
        Some (Count n) \<Rightarrow> Count (n + 1)
      | Some NonNumber \<Rightarrow> NonNumber
      | None \<Rightarrow> Count 1)"

text \<open>\<open>newTally\<close>: \<open>options.forEach((o) => { t[o] = 0; })\<close> from the empty object.\<close>

definition newTally :: "string list \<Rightarrow> tally_obj" where
  "newTally opts = fold (\<lambda>opt t. prop_set opt (Count 0) t) opts []"

subsection \<open>Decimal rendering of the clock\<close>

text \<open>
  \<open>'sess_' + Date.now()\<close> appends the decimal digits of the millisecond clock, an
  integer far below the range where JavaScript switches to exponent notation.
\<close>

definition digit_char :: "nat \<Rightarrow> char" where
  "digit_char d = ''0123456789'' ! d"

function digits :: "nat \<Rightarrow> string" where
  "digits n = (if n < 10 then [digit_char n] else digits (n div 10) @ [digit_char (n mod 10)])"
  by pat_completeness auto
termination
  by (relation "measure (\<lambda>n. n)") auto

declare digits.simps [simp del]

definition number_toString :: "int \<Rightarrow> string" where
  "number_toString i = (if i < 0 then CHR ''-'' # digits (nat (- i)) else digits (nat i))"

subsection \<open>Session, messages and server state\<close>

record session =
  id_s :: string
  options :: "string list"
  endAt :: jsnum
  active :: bool
  votes :: "(string \<times> string) list"
  tally :: tally_obj
  timer :: "nat option"

text \<open>
  What \<open>publish\<close> serialises: the payload is built by \<open>JSON.stringify\<close> at the moment
  of the call, so an event holds a snapshot of the tally's own properties.
\<close>

datatype event =
    Started string "string list" jsnum
  | Ended string string tally_obj
  | TallyUpdated string tally_obj nat

record server =
  currentSession :: "session option"
  timers :: "(nat \<times> jsnum) list"
  nextTimer :: nat
  published :: "(string \<times> event) list"

definition initial :: server where
  "initial = \<lparr>currentSession = None, timers = [], nextTimer = 0, published = []\<rparr>"

definition publish :: "string \<Rightarrow> event \<Rightarrow> server \<Rightarrow> server" where
  "publish topic obj s = s\<lparr>published := published s @ [(topic, obj)]\<rparr>"

text \<open>
  \<open>setTimeout\<close> arms a timeout and returns a fresh handle; \<open>clearTimeout\<close> disarms the
  handle if it is still armed. Every timeout of this program runs
  \<open>endSession('time_up')\<close>, so a pending entry is the handle and its delay.
\<close>

definition setTimeout :: "jsnum \<Rightarrow> server \<Rightarrow> nat \<times> server" where
  "setTimeout delay s =
     (nextTimer s, s\<lparr>timers := timers s @ [(nextTimer s, delay)], nextTimer := nextTimer s + 1\<rparr>)"

definition clearTimeout :: "nat \<Rightarrow> server \<Rightarrow> server" where
  "clearTimeout h s = s\<lparr>timers := filter (\<lambda>p. fst p \<noteq> h) (timers s)\<rparr>"

subsection \<open>endSession\<close>

definition endSession :: "string \<Rightarrow> server \<Rightarrow> server" where
  "endSession reason s =
     (case currentSession s of
        None \<Rightarrow> s
      | Some c \<Rightarrow>
          let s1 = (case timer c of None \<Rightarrow> s | Some h \<Rightarrow> clearTimeout h s);
              c' = c\<lparr>timer := None, active := False\<rparr>
          in publish ''voting/session'' (Ended (id_s c') reason (tally c'))
               (s1\<lparr>currentSession := Some c'\<rparr>))"

text \<open>The runtime fires an armed timeout: it leaves the pending set and its callback runs.\<close>

definition fireTimer :: "nat \<Rightarrow> server \<Rightarrow> server" where
  "fireTimer h s =
     (if h \<in> fst ` set (timers s)
      then endSession ''time_up'' (clearTimeout h s)
      else s)"

subsection \<open>POST /api/start\<close>

text \<open>
  The request body after \<open>express.json()\<close>: \<open>req_options\<close> is \<open>None\<close> when \<open>options\<close>
  is not an array, and otherwise lists \<open>String(o)\<close> for each element \<open>o\<close> (for a value
  parsed from JSON this is also the property key that \<open>t[o]\<close> uses);
  \<open>req_durationSeconds\<close> is \<open>Number(durationSeconds)\<close>.
\<close>

record start_request =
  req_durationSeconds :: jsnum
  req_options :: "string list option"

datatype error = InvalidOptions | InvalidDuration

record start_response =
  res_sessionId :: string
  res_endAt :: jsnum
  res_options :: "string list"

text \<open>
  \<open>Date.now()\<close> is read twice, once for the id and once for \<open>endAt\<close>: the two readings
  are the arguments \<open>now_id\<close> and \<open>now_end\<close>. The product \<open>dur * 1000\<close> and its sum with
  the clock are computed by the arithmetic \<open>fp\<close>.
\<close>

definition api_start ::
  "arith \<Rightarrow> int \<Rightarrow> int \<Rightarrow> start_request \<Rightarrow> server \<Rightarrow>
   (error + start_response) \<times> server" where
  "api_start fp now_id now_end req s =
     (case req_options req of
        None \<Rightarrow> (Inl InvalidOptions, s)
      | Some opts \<Rightarrow>
          if length opts < 2 then (Inl InvalidOptions, s)
          else
            let dur = req_durationSeconds req in
            if \<not> isFinite dur \<or> le_zero dur then (Inl InvalidDuration, s)
            else
              let ident = ''sess_'' @ number_toString now_id;
                  end_at = fadd fp (Finite (of_int now_end)) (fmul fp dur (Finite 1000));
                  (h, s1) = setTimeout (fmul fp dur (Finite 1000)) s;
                  c = \<lparr>id_s = ident, options = opts, endAt = end_at, active = True,
                       votes = [], tally = newTally opts, timer = Some h\<rparr>;
                  s2 = publish ''voting/session'' (Started ident (options c) end_at)
                         (s1\<lparr>currentSession := Some c\<rparr>)
              in (Inr \<lparr>res_sessionId = ident, res_endAt = end_at, res_options = options c\<rparr>, s2))"

subsection \<open>GET /api/status and GET /api/results\<close>

datatype status_response =
    StatusNoSession
  | Status string "string list" jsnum bool tally_obj

definition api_status :: "server \<Rightarrow> status_response" where
  "api_status s =
     (case currentSession s of
        None \<Rightarrow> StatusNoSession
      | Some c \<Rightarrow> Status (id_s c) (options c) (endAt c) (active c) (tally c))"

datatype results_response =
    ResultsNoSession
  | Results string bool tally_obj

definition api_results :: "server \<Rightarrow> results_response" where
  "api_results s =
     (case currentSession s of
        None \<Rightarrow> ResultsNoSession
      | Some c \<Rightarrow> Results (id_s c) (active c) (tally c))"

subsection \<open>Subscriber of voting/vote\<close>

text \<open>
  \<open>JSON.parse(packet.payload.toString())\<close> either throws or yields a value. Of that
  value the handler reads three properties; each is used only where a string can pass
  (\<open>!==\<close> against the session id, \<open>typeof\<close>, \<open>includes\<close> over strings), so a field
  is \<open>Some\<close> string, or \<open>None\<close> for a missing or non-string property. A parsed value
  that is not an object has all three \<open>None\<close>.
\<close>

record vote =
  sessionId :: "string option"
  deviceId :: "string option"
  choice :: "string option"

datatype payload = Malformed | Parsed vote

text \<open>
  The result of running a block: whether it completed or threw, how many times the
  completion callback \<open>cb\<close> was invoked, and the state.
\<close>

record outcome =
  threw :: bool
  acks :: nat
  state :: server

text \<open>
  \<open>return cb()\<close> inside the \<open>try\<close>: the call is evaluated before the \<open>finally\<close>
  block runs. Calling an absent \<open>cb\<close> throws a TypeError.
\<close>

definition return_cb :: "bool \<Rightarrow> server \<Rightarrow> outcome" where
  "return_cb cb s = (if cb then \<lparr>threw = False, acks = 1, state = s\<rparr>
                     else \<lparr>threw = True, acks = 0, state = s\<rparr>)"

definition admit :: "session \<Rightarrow> string \<Rightarrow> string \<Rightarrow> server \<Rightarrow> server" where
  "admit c d ch s =
     (let c1 = c\<lparr>votes := AList.update d ch (votes c)\<rparr>;
          c2 = c1\<lparr>tally := prop_set ch (incremented (tally c1) ch) (tally c1)\<rparr>
      in publish ''voting/tally'' (TallyUpdated (id_s c2) (tally c2) (length (votes c2)))
           (s\<lparr>currentSession := Some c2\<rparr>))"

definition try_block :: "bool \<Rightarrow> payload \<Rightarrow> server \<Rightarrow> outcome" where
  "try_block cb p s =
     (case p of
        Malformed \<Rightarrow> \<lparr>threw = True, acks = 0, state = s\<rparr>
      | Parsed v \<Rightarrow>
          (case currentSession s of
             None \<Rightarrow> return_cb cb s
           | Some c \<Rightarrow>
               if \<not> active c then return_cb cb s
               else if sessionId v \<noteq> Some (id_s c) then return_cb cb s
               else (case deviceId v of
                       None \<Rightarrow> return_cb cb s
                     | Some d \<Rightarrow>
                         if d = [] then return_cb cb s
                         else (case choice v of
                                 None \<Rightarrow> return_cb cb s
                               | Some ch \<Rightarrow>
                                   if ch \<notin> set (options c) then return_cb cb s
                                   else if map_of (votes c) d = None
                                   then \<lparr>threw = False, acks = 0, state = admit c d ch s\<rparr>
                                   else \<lparr>threw = False, acks = 0, state = s\<rparr>))))"

text \<open>
  The whole handler: the \<open>catch\<close> clause swallows whatever the \<open>try\<close> block threw, and
  the \<open>finally\<close> block calls \<open>cb\<close> when it is present.
\<close>

definition on_vote :: "bool \<Rightarrow> payload \<Rightarrow> server \<Rightarrow> outcome" where
  "on_vote cb p s =
     (let r = try_block cb p s;
          caught = r\<lparr>threw := False\<rparr>
      in if cb then caught\<lparr>acks := acks caught + 1\<rparr> else caught)"

subsection \<open>Runs of the server\<close>

datatype input =
    Start int int start_request
  | Vote bool payload
  | End string
  | TimerFires nat

fun step :: "arith \<Rightarrow> input \<Rightarrow> server \<Rightarrow> server" where
  "step fp (Start now_id now_end req) s = snd (api_start fp now_id now_end req s)"
| "step fp (Vote cb p) s = state (on_vote cb p s)"
| "step fp (End reason) s = endSession reason s"
| "step fp (TimerFires h) s = fireTimer h s"

definition run :: "arith \<Rightarrow> input list \<Rightarrow> server \<Rightarrow> server" where
  "run fp ins s = fold (step fp) ins s"

inductive reachable :: "arith \<Rightarrow> server \<Rightarrow> bool" for fp :: arith where
  reachable_initial: "reachable fp initial"
| reachable_step: "reachable fp s \<Longrightarrow> reachable fp (step fp i s)"

subsection \<open>Vocabulary of the properties\<close>

text \<open>The messages published between two states of one run.\<close>

definition emitted :: "server \<Rightarrow> server \<Rightarrow> (string \<times> event) list" where
  "emitted s s' = drop (length (published s)) (published s')"

fun is_ended :: "string \<times> event \<Rightarrow> bool" where
  "is_ended (topic, Ended i r t) = True"
| "is_ended _ = False"

fun is_tally_update :: "string \<times> event \<Rightarrow> bool" where
  "is_tally_update (topic, TallyUpdated i t n) = True"
| "is_tally_update _ = False"

text \<open>
  A concrete run used to instantiate the theorems: a session over the options A and B
  started at clock reading 1700, and one admitted vote for A.
\<close>

definition demo_request :: start_request where
  "demo_request = \<lparr>req_durationSeconds = Finite 5, req_options = Some [''A'', ''B'']\<rparr>"

definition demo_vote :: "string \<Rightarrow> string \<Rightarrow> vote" where
  "demo_vote d ch = \<lparr>sessionId = Some ''sess_1700'', deviceId = Some d, choice = Some ch\<rparr>"

definition demo_session :: session where
  "demo_session = \<lparr>id_s = ''sess_1700'', options = [''A'', ''B''], endAt = Finite 6700, active = True,
     votes = [(''dev1'', ''A'')], tally = [(''A'', Count 1), (''B'', Count 0)], timer = Some 0\<rparr>"

definition demo_server :: server where
  "demo_server = \<lparr>currentSession = Some demo_session, timers = [(0, Finite 5000)], nextTimer = 1,
     published = [(''voting/session'', Started ''sess_1700'' [''A'', ''B''] (Finite 6700)),
                  (''voting/tally'', TallyUpdated ''sess_1700'' [(''A'', Count 1), (''B'', Count 0)] 1)]\<rparr>"

text \<open>
  The conditions under which the subscriber drops a parsed vote before the ledger is
  consulted, as the specification lists them.
\<close>

definition rejected :: "vote \<Rightarrow> server \<Rightarrow> bool" where
  "rejected v s =
     (case currentSession s of
        None \<Rightarrow> True
      | Some c \<Rightarrow> \<not> active c \<or> sessionId v \<noteq> Some (id_s c) \<or> deviceId v = None \<or>
                  choice v \<notin> Some ` set (options c))"

text \<open>
  The two validation conditions of a start request in the specification's words:
  fewer than two options supplied, and a duration that is a finite positive number.
\<close>

fun finite_positive :: "jsnum \<Rightarrow> bool" where
  "finite_positive (Finite r) = (0 < r)"
| "finite_positive _ = False"

fun fewer_than_two :: "string list option \<Rightarrow> bool" where
  "fewer_than_two None = True"
| "fewer_than_two (Some opts) = (length opts < 2)"

text \<open>
  The handles the runtime holds armed, and the invariant that links them to the session
  slot: handles are allocated below \<open>nextTimer\<close>, and an active session owns a handle
  that is still armed.
\<close>

definition armed :: "server \<Rightarrow> nat set" where
  "armed s = fst ` set (timers s)"

definition timer_inv :: "server \<Rightarrow> bool" where
  "timer_inv s =
     ((\<forall>h \<in> armed s. h < nextTimer s) \<and>
      (case currentSession s of
         None \<Rightarrow> True
       | Some c \<Rightarrow> active c \<longrightarrow> (\<exists>h. timer c = Some h \<and> h \<in> armed s)))"

text \<open>The inputs that start a session, and the id of the session in the slot.\<close>

fun is_start :: "input \<Rightarrow> bool" where
  "is_start (Start n m req) = True"
| "is_start _ = False"

definition current_id :: "server \<Rightarrow> string option" where
  "current_id s = map_option id_s (currentSession s)"

text \<open>
  The specification's invariant in its own words: for every option the tally read
  \<open>tally[o]\<close> is the number of ledger entries whose value is that option, and the
  tally values sum to the size of the ledger.
\<close>

definition ledger_count :: "(string \<times> string) list \<Rightarrow> string \<Rightarrow> nat" where
  "ledger_count vs opt = length (filter (\<lambda>p. snd p = opt) vs)"

fun count_of :: "tval \<Rightarrow> nat" where
  "count_of (Count n) = n"
| "count_of NonNumber = 0"

definition tally_sum :: "tally_obj \<Rightarrow> nat" where
  "tally_sum t = sum_list (map (\<lambda>p. count_of (snd p)) t)"

definition tally_from_ledger :: "session \<Rightarrow> bool" where
  "tally_from_ledger c =
     (list_all (\<lambda>opt. prop_get (tally c) opt = Some (Count (ledger_count (votes c) opt)))
        (options c) \<and>
      tally_sum (tally c) = length (votes c))"

text \<open>
  The form of the invariant that the steps preserve: the own properties of the tally are
  exactly the options, each holding its count. It is maintained for sessions none of
  whose options is \<open>__proto__\<close>.
\<close>

definition counted :: "session \<Rightarrow> bool" where
  "counted c =
     ((\<forall>k. map_of (tally c) k =
            (if k \<in> set (options c) then Some (Count (ledger_count (votes c) k)) else None)) \<and>
      tally_sum (tally c) = length (votes c))"

definition counted_inv :: "server \<Rightarrow> bool" where
  "counted_inv s =
     (case currentSession s of
        None \<Rightarrow> True
      | Some c \<Rightarrow> ''__proto__'' \<notin> set (options c) \<longrightarrow> counted c)"

text \<open>
  A second concrete run, over the options \<open>__proto__\<close> and A, with a vote for
  \<open>__proto__\<close>.
\<close>

definition proto_request :: start_request where
  "proto_request = \<lparr>req_durationSeconds = Finite 5, req_options = Some [''__proto__'', ''A'']\<rparr>"

definition proto_vote :: vote where
  "proto_vote = \<lparr>sessionId = Some ''sess_1700'', deviceId = Some ''dev1'',
                  choice = Some ''__proto__''\<rparr>"

text \<open>A state that admits no vote: no session, or one that is no longer active.\<close>

definition inactive :: "server \<Rightarrow> bool" where
  "inactive s = (case currentSession s of None \<Rightarrow> True | Some c \<Rightarrow> \<not> active c)"

text \<open>
  The id a message carries, and the order property of a log: some tally update stands
  after an \<open>ended\<close> event with the same id.
\<close>

fun event_id :: "string \<times> event \<Rightarrow> string" where
  "event_id (topic, Started i opts e) = i"
| "event_id (topic, Ended i r t) = i"
| "event_id (topic, TallyUpdated i t n) = i"

fun tally_after_ended :: "(string \<times> event) list \<Rightarrow> bool" where
  "tally_after_ended [] = False"
| "tally_after_ended (e # es) =
     ((is_ended e \<and> list_ex (\<lambda>x. is_tally_update x \<and> event_id x = event_id e) es) \<or>
      tally_after_ended es)"

text \<open>
  A run in which every start request that succeeds is assigned an id that no message
  published so far carries.
\<close>

fun fresh_input :: "arith \<Rightarrow> input \<Rightarrow> server \<Rightarrow> bool" where
  "fresh_input fp (Start n m req) s =
     (case fst (api_start fp n m req s) of
        Inl e \<Rightarrow> True
      | Inr r \<Rightarrow> list_all (\<lambda>x. event_id x \<noteq> res_sessionId r) (published s))"
| "fresh_input fp (Vote cb p) s = True"
| "fresh_input fp (End reason) s = True"
| "fresh_input fp (TimerFires h) s = True"

fun fresh_run :: "arith \<Rightarrow> input list \<Rightarrow> server \<Rightarrow> bool" where
  "fresh_run fp [] s = True"
| "fresh_run fp (i # ins) s = (fresh_input fp i s \<and> fresh_run fp ins (step fp i s))"

text \<open>
  The invariant behind the order property: the log is in order, and the id of an active
  session has not been announced as ended.
\<close>

definition ended_ids :: "server \<Rightarrow> string set" where
  "ended_ids s = event_id ` {x \<in> set (published s). is_ended x}"

definition order_inv :: "server \<Rightarrow> bool" where
  "order_inv s =
     (\<not> tally_after_ended (published s) \<and>
      (case currentSession s of
         None \<Rightarrow> True
       | Some c \<Rightarrow> active c \<longrightarrow> id_s c \<notin> ended_ids s))"

text \<open>
  Two more concrete runs. In the first the timer closes the session and a second session
  is started at the same clock reading; in the second the clock has moved on.
\<close>

definition collision_run :: "input list" where
  "collision_run =
     [Start 1700 1700 demo_request, TimerFires 0, Start 1700 1700 demo_request,
      Vote True (Parsed (demo_vote ''dev1'' ''A''))]"

definition two_sessions_run :: "input list" where
  "two_sessions_run =
     [Start 1700 1700 demo_request, Vote True (Parsed (demo_vote ''dev1'' ''A'')),
      TimerFires 0, Start 1800 1800 demo_request,
      Vote True (Parsed \<lparr>sessionId = Some ''sess_1800'', deviceId = Some ''dev1'',
                          choice = Some ''B''\<rparr>),
      Vote True (Parsed (demo_vote ''dev2'' ''A''))]"

section \<open>Properties\<close>

subsection \<open>The concrete run\<close>

lemma demo_server_run:
  "run exact_arith [Start 1700 1700 demo_request, Vote True (Parsed (demo_vote ''dev1'' ''A''))] initial =
   demo_server"
  by code_simp

lemma demo_current: "currentSession demo_server = Some demo_session"
  by (simp add: demo_server_def)

subsection \<open>Closing a session\<close>

lemma endSession_Some:
  "currentSession s = Some c \<Longrightarrow>
   endSession reason s =
     s\<lparr>currentSession := Some (c\<lparr>timer := None, active := False\<rparr>),
       timers := (case timer c of None \<Rightarrow> timers s
                  | Some h \<Rightarrow> filter (\<lambda>p. fst p \<noteq> h) (timers s)),
       published := published s @ [(''voting/session'', Ended (id_s c) reason (tally c))]\<rparr>"
  by (simp add: endSession_def publish_def clearTimeout_def Let_def split: option.splits)

lemma endSession_None: "currentSession s = None \<Longrightarrow> endSession reason s = s"
  by (simp add: endSession_def)

text \<open>
  Claim C10. With a current session, \<open>endSession\<close> changes only the session's
  \<open>active\<close> flag and \<open>timer\<close> handle: id, options, endAt, votes and tally stay as they
  were, and the one message it publishes is the \<open>ended\<close> event carrying the tally the
  session had at that instant.
\<close>

theorem endSession_frame:
  assumes "currentSession s = Some c"
  shows "currentSession (endSession reason s) = Some (c\<lparr>timer := None, active := False\<rparr>) \<and>
         (\<exists>c'. currentSession (endSession reason s) = Some c' \<and> id_s c' = id_s c \<and>
            options c' = options c \<and> endAt c' = endAt c \<and> votes c' = votes c \<and>
            tally c' = tally c) \<and>
         emitted s (endSession reason s) = [(''voting/session'', Ended (id_s c) reason (tally c))]"
  using assms by (simp add: endSession_Some emitted_def)

theorem endSession_frame_witness:
  "currentSession demo_server = Some demo_session \<and>
   currentSession (endSession ''manual'' demo_server) =
     Some (demo_session\<lparr>timer := None, active := False\<rparr>) \<and>
   emitted demo_server (endSession ''manual'' demo_server) =
     [(''voting/session'', Ended ''sess_1700'' ''manual'' [(''A'', Count 1), (''B'', Count 0)])]"
proof -
  have h: "currentSession demo_server = Some demo_session"
    by (rule demo_current)
  from endSession_frame [OF h, of "''manual''"] h show ?thesis
    by (simp add: demo_session_def)
qed

text \<open>
  Claim C2, as stated: two calls of \<open>endSession\<close> in succession emit the \<open>ended\<close> event
  exactly once. It fails: \<open>endSession\<close> tests only that a session exists, not that it
  is active, so on the concrete run the two calls emit two \<open>ended\<close> events.
\<close>

theorem endSession_twice_counterexample:
  "length (filter is_ended
     (emitted demo_server (endSession ''manual'' (endSession ''manual'' demo_server)))) \<noteq> 1"
  by code_simp

text \<open>
  Claim C2, amended. With a current session, each call of \<open>endSession\<close> emits one
  \<open>ended\<close> event, so two calls in succession emit two, both with the same session id
  and tally. The second call changes nothing else: the state after it is the state after
  the first call with that one message appended.
\<close>

theorem endSession_twice:
  assumes "currentSession s = Some c"
  shows "emitted s (endSession r2 (endSession r1 s)) =
           [(''voting/session'', Ended (id_s c) r1 (tally c)),
            (''voting/session'', Ended (id_s c) r2 (tally c))] \<and>
         endSession r2 (endSession r1 s) =
           publish ''voting/session'' (Ended (id_s c) r2 (tally c)) (endSession r1 s)"
proof -
  let ?c1 = "c\<lparr>timer := None, active := False\<rparr>"
  have c1: "currentSession (endSession r1 s) = Some ?c1"
    using assms by (simp add: endSession_Some)
  have "emitted s (endSession r2 (endSession r1 s)) =
           [(''voting/session'', Ended (id_s c) r1 (tally c)),
            (''voting/session'', Ended (id_s c) r2 (tally c))]"
    by (subst endSession_Some [OF c1]) (simp add: endSession_Some [OF assms] emitted_def)
  moreover have "endSession r2 (endSession r1 s) =
           publish ''voting/session'' (Ended (id_s c) r2 (tally c)) (endSession r1 s)"
    by (subst endSession_Some [OF c1]) (simp add: endSession_Some [OF assms] publish_def)
  ultimately show ?thesis by simp
qed

theorem endSession_twice_witness:
  "currentSession demo_server = Some demo_session \<and>
   length (filter is_ended
     (emitted demo_server (endSession ''shutdown'' (endSession ''time_up'' demo_server)))) = 2"
proof -
  have h: "currentSession demo_server = Some demo_session"
    by (rule demo_current)
  from endSession_twice [OF h, of "''shutdown''" "''time_up''", THEN conjunct1] h show ?thesis
    by simp
qed

subsection \<open>Votes that are dropped\<close>

lemma return_cb_state [simp]: "state (return_cb cb s) = s"
  by (simp add: return_cb_def)

lemma on_vote_state: "state (on_vote cb p s) = state (try_block cb p s)"
  by (simp add: on_vote_def Let_def)

lemma rejected_state: "rejected v s \<Longrightarrow> state (on_vote cb (Parsed v) s) = s"
  by (auto simp: rejected_def on_vote_state try_block_def split: option.splits)

lemma ended_not_active:
  "currentSession (endSession reason s) = None \<or>
   (\<exists>c. currentSession (endSession reason s) = Some c \<and> \<not> active c)"
  by (cases "currentSession s") (simp_all add: endSession_def publish_def Let_def)

subsection \<open>Duplicate votes\<close>

lemma duplicate_dropped:
  "currentSession s = Some c \<Longrightarrow> deviceId v = Some d \<Longrightarrow> map_of (votes c) d \<noteq> None \<Longrightarrow>
   state (on_vote cb (Parsed v) s) = s"
  by (auto simp: on_vote_state try_block_def split: option.splits)

lemma admitted_state:
  "currentSession s = Some c \<Longrightarrow> active c \<Longrightarrow> sessionId v = Some (id_s c) \<Longrightarrow>
   deviceId v = Some d \<Longrightarrow> d \<noteq> [] \<Longrightarrow> choice v = Some ch \<Longrightarrow> ch \<in> set (options c) \<Longrightarrow>
   map_of (votes c) d = None \<Longrightarrow>
   state (on_vote cb (Parsed v) s) = admit c d ch s"
  by (simp add: on_vote_state try_block_def)

lemma admit_current:
  "currentSession (admit c d ch s) =
     Some (c\<lparr>votes := AList.update d ch (votes c),
             tally := prop_set ch (incremented (tally c) ch) (tally c)\<rparr>)"
  by (simp add: admit_def publish_def Let_def)

text \<open>
  Claim C4. In an active session, a vote whose \<open>deviceId\<close> is already in the ledger
  changes nothing and publishes nothing, whatever its choice. Hence after a vote has
  been admitted, a further vote from the same device leaves the state exactly as the
  first vote left it: the first choice stays.
\<close>

theorem first_vote_wins:
  assumes "currentSession s = Some c" and "active c" and "deviceId v = Some d"
  shows "(map_of (votes c) d \<noteq> None \<longrightarrow>
            state (on_vote cb (Parsed v) s) = s \<and>
            emitted s (state (on_vote cb (Parsed v) s)) = []) \<and>
         (sessionId v = Some (id_s c) \<and> d \<noteq> [] \<and> choice v = Some ch \<and> ch \<in> set (options c) \<and>
          deviceId v' = Some d \<longrightarrow>
            state (on_vote cb' (Parsed v') (state (on_vote cb (Parsed v) s))) =
            state (on_vote cb (Parsed v) s))"
proof (intro conjI impI)
  assume "map_of (votes c) d \<noteq> None"
  with assms show "state (on_vote cb (Parsed v) s) = s"
    by (simp add: duplicate_dropped)
  then show "emitted s (state (on_vote cb (Parsed v) s)) = []"
    by (simp add: emitted_def)
next
  assume a: "sessionId v = Some (id_s c) \<and> d \<noteq> [] \<and> choice v = Some ch \<and>
             ch \<in> set (options c) \<and> deviceId v' = Some d"
  show "state (on_vote cb' (Parsed v') (state (on_vote cb (Parsed v) s))) =
        state (on_vote cb (Parsed v) s)"
  proof (cases "map_of (votes c) d")
    case None
    with assms a have st: "state (on_vote cb (Parsed v) s) = admit c d ch s"
      by (simp add: admitted_state)
    have "map_of (AList.update d ch (votes c)) d \<noteq> None"
      by (simp add: update_conv')
    then show ?thesis
      unfolding st using a by (intro duplicate_dropped [OF admit_current]) simp_all
  next
    case (Some x)
    with assms have st: "state (on_vote cb (Parsed v) s) = s"
      by (simp add: duplicate_dropped)
    from Some assms a show ?thesis
      unfolding st by (simp add: duplicate_dropped)
  qed
qed

theorem first_vote_wins_witness:
  "currentSession demo_server = Some demo_session \<and> active demo_session \<and>
   deviceId (demo_vote ''dev1'' ''B'') = Some ''dev1'' \<and>
   map_of (votes demo_session) ''dev1'' \<noteq> None \<and>
   (sessionId (demo_vote ''dev1'' ''B'') = Some (id_s demo_session) \<and> ''dev1'' \<noteq> [] \<and>
    choice (demo_vote ''dev1'' ''B'') = Some ''B'' \<and> ''B'' \<in> set (options demo_session) \<and>
    deviceId (demo_vote ''dev1'' ''A'') = Some ''dev1'') \<and>
   state (on_vote True (Parsed (demo_vote ''dev1'' ''B'')) demo_server) = demo_server \<and>
   state (on_vote True (Parsed (demo_vote ''dev1'' ''A''))
            (state (on_vote True (Parsed (demo_vote ''dev1'' ''B'')) demo_server))) =
     state (on_vote True (Parsed (demo_vote ''dev1'' ''B'')) demo_server)"
proof -
  have h1: "currentSession demo_server = Some demo_session" by (rule demo_current)
  have h2: "active demo_session" by (simp add: demo_session_def)
  have h3: "deviceId (demo_vote ''dev1'' ''B'') = Some ''dev1''" by (simp add: demo_vote_def)
  have h4: "map_of (votes demo_session) ''dev1'' \<noteq> None" by (simp add: demo_session_def)
  have h5: "sessionId (demo_vote ''dev1'' ''B'') = Some (id_s demo_session) \<and> ''dev1'' \<noteq> [] \<and>
    choice (demo_vote ''dev1'' ''B'') = Some ''B'' \<and> ''B'' \<in> set (options demo_session) \<and>
    deviceId (demo_vote ''dev1'' ''A'') = Some ''dev1''"
    by (simp add: demo_vote_def demo_session_def)
  from first_vote_wins [OF h1 h2 h3, where cb = True and cb' = True and ch = "''B''"
                          and v' = "demo_vote ''dev1'' ''A''"] h1 h2 h3 h4 h5
  show ?thesis by auto
qed

subsection \<open>Validation of a start request\<close>

lemma invalid_duration: "(\<not> isFinite d \<or> le_zero d) = (\<not> finite_positive d)"
  by (cases d) auto

lemma api_start_invalid_options:
  "fewer_than_two (req_options req) \<Longrightarrow> api_start fp n m req s = (Inl InvalidOptions, s)"
  by (cases "req_options req") (simp_all add: api_start_def)

lemma api_start_invalid_duration:
  "\<not> fewer_than_two (req_options req) \<Longrightarrow> \<not> finite_positive (req_durationSeconds req) \<Longrightarrow>
   api_start fp n m req s = (Inl InvalidDuration, s)"
  by (cases "req_options req"; cases "req_durationSeconds req")
     (simp_all add: api_start_def Let_def)

lemma api_start_ok:
  "req_options req = Some opts \<Longrightarrow> 2 \<le> length opts \<Longrightarrow> req_durationSeconds req = Finite r \<Longrightarrow>
   0 < r \<Longrightarrow>
   api_start fp n m req s =
     (Inr \<lparr>res_sessionId = ''sess_'' @ number_toString n,
           res_endAt = fadd fp (Finite (of_int m)) (fmul fp (Finite r) (Finite 1000)),
           res_options = opts\<rparr>,
      s\<lparr>currentSession := Some \<lparr>id_s = ''sess_'' @ number_toString n, options = opts,
             endAt = fadd fp (Finite (of_int m)) (fmul fp (Finite r) (Finite 1000)),
             active = True, votes = [], tally = newTally opts,
             timer = Some (nextTimer s)\<rparr>,
        timers := timers s @ [(nextTimer s, fmul fp (Finite r) (Finite 1000))],
        nextTimer := nextTimer s + 1,
        published := published s @
          [(''voting/session'',
            Started (''sess_'' @ number_toString n) opts
              (fadd fp (Finite (of_int m)) (fmul fp (Finite r) (Finite 1000))))]\<rparr>)"
  by (simp add: api_start_def Let_def setTimeout_def publish_def)

lemma api_start_cases:
  obtains (bad_options) "fewer_than_two (req_options req)"
  | (bad_duration) "\<not> fewer_than_two (req_options req)" "\<not> finite_positive (req_durationSeconds req)"
  | (ok) opts r where "req_options req = Some opts" "2 \<le> length opts"
      "req_durationSeconds req = Finite r" "0 < r"
proof (cases "fewer_than_two (req_options req)")
  case True
  then show ?thesis by (rule bad_options)
next
  case False
  then obtain opts where o: "req_options req = Some opts" "2 \<le> length opts"
    by (cases "req_options req") auto
  show ?thesis
  proof (cases "finite_positive (req_durationSeconds req)")
    case True
    then obtain r where "req_durationSeconds req = Finite r" "0 < r"
      by (cases "req_durationSeconds req") auto
    with o show ?thesis by (rule ok)
  next
    case False
    with \<open>\<not> fewer_than_two (req_options req)\<close> show ?thesis by (rule bad_duration)
  qed
qed




subsection \<open>After closure\<close>

lemma inactive_endSession: "inactive (endSession reason s)"
  by (cases "currentSession s") (simp_all add: inactive_def endSession_None endSession_Some)

lemma inactive_vote: "inactive s \<Longrightarrow> state (on_vote cb p s) = s"
  by (auto simp: inactive_def on_vote_state try_block_def split: payload.splits option.splits)

lemma endSession_published:
  "filter is_tally_update (published (endSession reason s)) =
   filter is_tally_update (published s)"
  by (cases "currentSession s") (simp_all add: endSession_None endSession_Some)

lemma inactive_step:
  assumes "inactive s" and "\<not> is_start i"
  shows "inactive (step fp i s) \<and>
         filter is_tally_update (published (step fp i s)) = filter is_tally_update (published s)"
proof (cases i)
  case (Start n m req)
  with assms(2) show ?thesis by simp
next
  case (Vote cb p)
  with assms(1) show ?thesis by (simp add: inactive_vote)
next
  case (End reason)
  then show ?thesis by (simp add: inactive_endSession endSession_published)
next
  case (TimerFires h)
  have "published (clearTimeout h s) = published s" by (simp add: clearTimeout_def)
  with TimerFires assms(1) show ?thesis
    by (simp add: fireTimer_def inactive_endSession endSession_published)
qed

lemma inactive_run:
  "inactive s \<Longrightarrow> list_all (\<lambda>i. \<not> is_start i) ins \<Longrightarrow>
   inactive (run fp ins s) \<and>
   filter is_tally_update (published (run fp ins s)) = filter is_tally_update (published s)"
proof (induction ins arbitrary: s)
  case Nil
  then show ?case by (simp add: run_def)
next
  case (Cons i ins)
  from Cons.prems have i: "\<not> is_start i" and rest: "list_all (\<lambda>i. \<not> is_start i) ins"
    by simp_all
  from inactive_step [OF Cons.prems(1) i] Cons.IH [of "step fp i s", OF _ rest]
  show ?case by (simp add: run_def)
qed

lemma published_step: "\<exists>es. published (step fp i s) = published s @ es"
proof (cases i)
  case (Start n m req)
  show ?thesis
  proof (cases req rule: api_start_cases)
    case bad_options
    then show ?thesis by (simp add: Start api_start_invalid_options)
  next
    case bad_duration
    then show ?thesis by (simp add: Start api_start_invalid_duration)
  next
    case (ok opts r)
    show ?thesis by (simp add: Start api_start_ok [OF ok])
  qed
next
  case (Vote cb p)
  then show ?thesis
    by (auto simp: on_vote_state try_block_def admit_def publish_def Let_def
             split: payload.splits option.splits)
next
  case (End reason)
  then show ?thesis
    by (cases "currentSession s") (simp_all add: endSession_None endSession_Some)
next
  case (TimerFires h)
  have "published (clearTimeout h s) = published s" by (simp add: clearTimeout_def)
  then show ?thesis
    by (cases "currentSession (clearTimeout h s)")
       (simp_all add: TimerFires fireTimer_def endSession_None endSession_Some)
qed

lemma published_run: "\<exists>es. published (run fp ins s) = published s @ es"
proof (induction ins arbitrary: s)
  case Nil
  show ?case by (simp add: run_def)
next
  case (Cons i ins)
  from published_step [of fp i s] obtain es where a: "published (step fp i s) = published s @ es" ..
  from Cons.IH [of "step fp i s"] obtain fs where
    b: "published (run fp ins (step fp i s)) = published (step fp i s) @ fs" ..
  from a b show ?case by (simp add: run_def)
qed

lemma inactive_run_emitted:
  assumes "inactive s" and "list_all (\<lambda>i. \<not> is_start i) ins"
  shows "filter is_tally_update (emitted s (run fp ins s)) = []"
proof -
  from published_run [of fp ins s] obtain es where es: "published (run fp ins s) = published s @ es" ..
  from inactive_run [OF assms] have
    "filter is_tally_update (published (run fp ins s)) = filter is_tally_update (published s)"
    by simp
  with es have "filter is_tally_update es = []" by simp
  with es show ?thesis by (simp add: emitted_def)
qed

lemma tally_after_ended_snoc:
  "tally_after_ended (es @ [e]) =
     (tally_after_ended es \<or>
      (is_tally_update e \<and> (\<exists>x \<in> set es. is_ended x \<and> event_id x = event_id e)))"
  by (induction es) (auto simp: list_ex_iff)

lemma ended_ids_iff:
  "i \<in> ended_ids s \<longleftrightarrow> (\<exists>x \<in> set (published s). is_ended x \<and> event_id x = i)"
  by (auto simp: ended_ids_def)

lemma on_vote_same_or_admitted:
  "state (on_vote cb p s) = s \<or>
   (\<exists>c d ch. currentSession s = Some c \<and> active c \<and>
      state (on_vote cb p s) = admit c d ch s)"
  by (auto simp: on_vote_state try_block_def split: payload.splits option.splits)

lemma on_vote_cases:
  obtains (same) "state (on_vote cb p s) = s"
  | (admitted) c d ch where "currentSession s = Some c" "active c" "state (on_vote cb p s) = admit c d ch s"
  using on_vote_same_or_admitted [of cb p s] by blast

lemma admit_published:
  "published (admit c d ch s) =
     published s @
       [(''voting/tally'',
         TallyUpdated (id_s c) (prop_set ch (incremented (tally c) ch) (tally c))
           (length (AList.update d ch (votes c))))]"
  by (simp add: admit_def publish_def Let_def)

lemma order_inv_vote: "order_inv (state (on_vote cb p s))" if "order_inv s"
proof (cases cb p s rule: on_vote_cases)
  case same
  with that show ?thesis by simp
next
  case (admitted c d ch)
  from that admitted(1,2) have "\<not> tally_after_ended (published s)" "id_s c \<notin> ended_ids s"
    by (simp_all add: order_inv_def)
  then show ?thesis
    by (auto simp: order_inv_def admitted(3) admit_published admit_current
                   tally_after_ended_snoc ended_ids_iff)
qed

lemma order_inv_endSession: "order_inv s \<Longrightarrow> order_inv (endSession reason s)"
  by (cases "currentSession s")
     (simp_all add: order_inv_def endSession_None endSession_Some tally_after_ended_snoc
                    ended_ids_iff)

lemma order_inv_fire: "order_inv s \<Longrightarrow> order_inv (fireTimer h s)"
proof -
  assume "order_inv s"
  then have "order_inv (clearTimeout h s)"
    by (simp add: order_inv_def clearTimeout_def ended_ids_iff split: option.splits)
  then have "order_inv (endSession ''time_up'' (clearTimeout h s))"
    by (rule order_inv_endSession)
  with \<open>order_inv s\<close> show ?thesis by (simp add: fireTimer_def)
qed

lemma order_inv_start:
  assumes "order_inv s" and "fresh_input fp (Start n m req) s"
  shows "order_inv (snd (api_start fp n m req s))"
proof (cases req rule: api_start_cases)
  case bad_options
  with assms(1) show ?thesis by (simp add: api_start_invalid_options)
next
  case bad_duration
  with assms(1) show ?thesis by (simp add: api_start_invalid_duration)
next
  case (ok opts r)
  from assms(2) have "\<forall>x \<in> set (published s). event_id x \<noteq> ''sess_'' @ number_toString n"
    by (simp add: api_start_ok [OF ok] list_all_iff)
  with assms(1) show ?thesis
    by (auto simp: api_start_ok [OF ok] order_inv_def tally_after_ended_snoc ended_ids_iff)
qed

lemma order_inv_step: "order_inv s \<Longrightarrow> fresh_input fp i s \<Longrightarrow> order_inv (step fp i s)"
  by (cases i) (simp_all add: order_inv_start order_inv_vote order_inv_endSession order_inv_fire)

lemma order_inv_run: "order_inv s \<Longrightarrow> fresh_run fp ins s \<Longrightarrow> order_inv (run fp ins s)"
proof (induction ins arbitrary: s)
  case Nil
  then show ?case by (simp add: run_def)
next
  case (Cons i ins)
  from Cons.prems have "order_inv (step fp i s)" by (simp add: order_inv_step)
  moreover from Cons.prems have "fresh_run fp ins (step fp i s)" by simp
  ultimately have "order_inv (run fp ins (step fp i s))" by (rule Cons.IH)
  then show ?case by (simp add: run_def)
qed

lemma order_inv_initial: "order_inv initial"
  by (simp add: order_inv_def initial_def)

text \<open>
  Claim C3, as stated, says in its last part that no tally update is ever emitted after
  the \<open>ended\<close> event for the same session id. That part fails: a vote is matched
  against the current session by id alone, and the id is the clock reading. When the
  timer has closed a session and a new one is started at the same clock reading, a vote
  for the new session is published as a tally update under the id that was announced as
  ended.
\<close>

theorem tally_after_ended_counterexample:
  "published (run exact_arith collision_run initial) =
     [(''voting/session'', Started ''sess_1700'' [''A'', ''B''] (Finite 6700)),
      (''voting/session'', Ended ''sess_1700'' ''time_up'' [(''A'', Count 0), (''B'', Count 0)]),
      (''voting/session'', Started ''sess_1700'' [''A'', ''B''] (Finite 6700)),
      (''voting/tally'', TallyUpdated ''sess_1700'' [(''A'', Count 1), (''B'', Count 0)] 1)] \<and>
   tally_after_ended (published (run exact_arith collision_run initial))"
  by code_simp

text \<open>
  Claim C3, amended. A vote is dropped when there is no current session, the session is
  inactive, the \<open>sessionId\<close> is not the current id, the \<open>deviceId\<close> is missing or not a
  string, or the \<open>choice\<close> is not one of the options: the whole state, hence ledger and
  tally, is as before and nothing is published. A payload that is not JSON is dropped in
  the same way. Once \<open>endSession\<close> has run, no votes, closures or timer firings publish
  a tally update as long as no new session is started. And in every run from the initial
  state in which each started session is assigned an id that no earlier message carries,
  no tally update stands after an \<open>ended\<close> event with the same session id.
\<close>

theorem rejected_vote_no_effect:
  "(rejected v s \<longrightarrow>
      state (on_vote cb (Parsed v) s) = s \<and> emitted s (state (on_vote cb (Parsed v) s)) = []) \<and>
   state (on_vote cb Malformed s) = s \<and>
   (list_all (\<lambda>i. \<not> is_start i) ins \<longrightarrow>
      filter is_tally_update
        (emitted (endSession reason s) (run fp ins (endSession reason s))) = []) \<and>
   (fresh_run fp ins' initial \<longrightarrow> \<not> tally_after_ended (published (run fp ins' initial)))"
proof -
  have a: "rejected v s \<longrightarrow>
      state (on_vote cb (Parsed v) s) = s \<and> emitted s (state (on_vote cb (Parsed v) s)) = []"
    by (simp add: rejected_state emitted_def)
  have b: "state (on_vote cb Malformed s) = s"
    by (simp add: on_vote_state try_block_def)
  have c: "list_all (\<lambda>i. \<not> is_start i) ins \<longrightarrow>
      filter is_tally_update
        (emitted (endSession reason s) (run fp ins (endSession reason s))) = []"
    using inactive_run_emitted [OF inactive_endSession] by blast
  have d: "fresh_run fp ins' initial \<longrightarrow> \<not> tally_after_ended (published (run fp ins' initial))"
    using order_inv_run [OF order_inv_initial] by (auto simp: order_inv_def)
  from a b c d show ?thesis by blast
qed

theorem rejected_vote_no_effect_witness:
  "rejected (demo_vote ''dev2'' ''C'') demo_server \<and>
   state (on_vote True (Parsed (demo_vote ''dev2'' ''C'')) demo_server) = demo_server \<and>
   list_all (\<lambda>i. \<not> is_start i)
     [Vote True (Parsed (demo_vote ''dev2'' ''B'')), End ''shutdown'',
      Vote True (Parsed (demo_vote ''dev3'' ''A''))] \<and>
   filter is_tally_update
     (emitted (endSession ''time_up'' demo_server)
        (run exact_arith
           [Vote True (Parsed (demo_vote ''dev2'' ''B'')), End ''shutdown'',
            Vote True (Parsed (demo_vote ''dev3'' ''A''))]
           (endSession ''time_up'' demo_server))) = [] \<and>
   fresh_run exact_arith two_sessions_run initial \<and>
   length (filter is_tally_update (published (run exact_arith two_sessions_run initial))) = 2 \<and>
   \<not> tally_after_ended (published (run exact_arith two_sessions_run initial))"
proof -
  have h: "rejected (demo_vote ''dev2'' ''C'') demo_server"
    by (simp add: rejected_def demo_vote_def demo_server_def demo_session_def)
  have l: "list_all (\<lambda>i. \<not> is_start i)
     [Vote True (Parsed (demo_vote ''dev2'' ''B'')), End ''shutdown'',
      Vote True (Parsed (demo_vote ''dev3'' ''A''))]"
    by simp
  have f: "fresh_run exact_arith two_sessions_run initial"
    by code_simp
  have n: "length (filter is_tally_update
             (published (run exact_arith two_sessions_run initial))) = 2"
    by code_simp
  from rejected_vote_no_effect
         [where v = "demo_vote ''dev2'' ''C''" and s = demo_server and cb = True
            and fp = exact_arith and reason = "''time_up''"
            and ins = "[Vote True (Parsed (demo_vote ''dev2'' ''B'')), End ''shutdown'',
               Vote True (Parsed (demo_vote ''dev3'' ''A''))]"
            and ins' = two_sessions_run] h l f n
  show ?thesis by simp
qed

subsection \<open>Acknowledging a vote message\<close>

text \<open>
  The handler never lets an exception escape. With a callback present, a message that
  cannot be parsed is acknowledged once, but a message dropped by one of the validation
  checks is acknowledged twice: once by \<open>return cb()\<close> and once more by the
  \<open>finally\<close> block.
\<close>

lemma on_vote_never_throws: "threw (on_vote cb p s) = False"
  by (simp add: on_vote_def Let_def)

lemma rejected_acks: "rejected v s \<Longrightarrow> acks (on_vote True (Parsed v) s) = 2"
  by (auto simp: rejected_def on_vote_def try_block_def return_cb_def Let_def split: option.splits)

lemma accepted_acks:
  "\<not> rejected v s \<Longrightarrow> deviceId v \<noteq> Some [] \<Longrightarrow> acks (on_vote True (Parsed v) s) = 1"
  by (auto simp: rejected_def on_vote_def try_block_def return_cb_def Let_def
           split: option.splits)

lemma malformed_acks: "acks (on_vote True Malformed s) = 1"
  by (simp add: on_vote_def try_block_def Let_def)

lemma absent_cb_acks: "acks (on_vote False p s) = 0"
  by (auto simp: on_vote_def try_block_def return_cb_def Let_def split: option.splits payload.splits)

text \<open>
  Claim C7 says that every message is acknowledged exactly once. On a well-formed vote
  delivered while no session exists the callback is invoked twice.
\<close>

theorem rejected_vote_acknowledged_twice:
  "acks (on_vote True (Parsed (demo_vote ''dev1'' ''A'')) initial) = 2"
  by (simp add: on_vote_def try_block_def return_cb_def initial_def Let_def)

subsection \<open>Timers\<close>

lemma armed_endSession: "armed (endSession reason s) \<subseteq> armed s"
  by (cases "currentSession s")
     (auto simp: armed_def endSession_None endSession_Some split: option.splits)

lemma nextTimer_endSession [simp]: "nextTimer (endSession reason s) = nextTimer s"
  by (cases "currentSession s") (simp_all add: endSession_None endSession_Some)

lemma timer_inv_endSession:
  assumes "\<forall>h \<in> armed s. h < nextTimer s"
  shows "timer_inv (endSession reason s)"
proof -
  have "\<forall>h \<in> armed (endSession reason s). h < nextTimer (endSession reason s)"
    using assms armed_endSession [of reason s] by auto
  moreover have "case currentSession (endSession reason s) of None \<Rightarrow> True
     | Some c \<Rightarrow> active c \<longrightarrow> (\<exists>h. timer c = Some h \<and> h \<in> armed (endSession reason s))"
    using ended_not_active [of reason s] by auto
  ultimately show ?thesis by (simp add: timer_inv_def)
qed

lemma timer_inv_start: "timer_inv s \<Longrightarrow> timer_inv (snd (api_start fp n m req s))"
proof (cases req rule: api_start_cases)
  case bad_options
  assume "timer_inv s"
  then show ?thesis using bad_options by (simp add: api_start_invalid_options)
next
  case bad_duration
  assume "timer_inv s"
  then show ?thesis using bad_duration by (simp add: api_start_invalid_duration)
next
  case (ok opts r)
  assume "timer_inv s"
  then show ?thesis
    by (auto simp: api_start_ok [OF ok] timer_inv_def armed_def less_Suc_eq)
qed

lemma try_block_timers:
  "armed (state (try_block cb p s)) = armed s \<and>
   nextTimer (state (try_block cb p s)) = nextTimer s"
  by (auto simp: armed_def try_block_def admit_def publish_def Let_def
           split: payload.splits option.splits)

lemma try_block_session:
  "currentSession s = Some c \<Longrightarrow>
   \<exists>c'. currentSession (state (try_block cb p s)) = Some c' \<and> timer c' = timer c \<and>
        active c' = active c \<and> id_s c' = id_s c \<and> options c' = options c \<and> endAt c' = endAt c"
  by (auto simp: try_block_def admit_def publish_def Let_def split: payload.splits option.splits)

lemma try_block_no_session:
  "currentSession s = None \<Longrightarrow> state (try_block cb p s) = s"
  by (auto simp: try_block_def split: payload.splits)

lemma timer_inv_vote: "timer_inv s \<Longrightarrow> timer_inv (state (on_vote cb p s))"
proof (cases "currentSession s")
  case None
  assume "timer_inv s"
  with None show ?thesis by (simp add: on_vote_state try_block_no_session)
next
  case (Some c)
  assume "timer_inv s"
  with Some try_block_session [OF Some, of cb p] try_block_timers [of cb p s]
  show ?thesis by (auto simp: on_vote_state timer_inv_def)
qed

lemma timer_inv_fire: "timer_inv s \<Longrightarrow> timer_inv (fireTimer h s)"
proof -
  assume inv: "timer_inv s"
  have "\<forall>k \<in> armed (clearTimeout h s). k < nextTimer (clearTimeout h s)"
    using inv by (auto simp: timer_inv_def armed_def clearTimeout_def)
  then have "timer_inv (endSession ''time_up'' (clearTimeout h s))"
    by (rule timer_inv_endSession)
  with inv show ?thesis by (simp add: fireTimer_def)
qed

lemma timer_inv_step: "timer_inv s \<Longrightarrow> timer_inv (step fp i s)"
proof (cases i)
  case (Start n m req)
  assume "timer_inv s" then show ?thesis using Start by (simp add: timer_inv_start)
next
  case (Vote cb p)
  assume "timer_inv s" then show ?thesis using Vote by (simp add: timer_inv_vote)
next
  case (End reason)
  assume "timer_inv s"
  then have "\<forall>h \<in> armed s. h < nextTimer s" by (simp add: timer_inv_def)
  then have "timer_inv (endSession reason s)" by (rule timer_inv_endSession)
  then show ?thesis using End by simp
next
  case (TimerFires h)
  assume "timer_inv s" then show ?thesis using TimerFires by (simp add: timer_inv_fire)
qed

lemma reachable_timer_inv: "reachable fp s \<Longrightarrow> timer_inv s"
proof (induction rule: reachable.induct)
  case reachable_initial
  show ?case by (simp add: timer_inv_def initial_def armed_def)
next
  case (reachable_step s i)
  then show ?case by (simp add: timer_inv_step)
qed

lemma reachable_run: "reachable fp s \<Longrightarrow> reachable fp (run fp ins s)"
proof (induction ins arbitrary: s)
  case Nil
  then show ?case by (simp add: run_def)
next
  case (Cons i ins)
  from Cons.prems have "reachable fp (step fp i s)" by (rule reachable_step)
  then have "reachable fp (run fp ins (step fp i s))" by (rule Cons.IH)
  then show ?case by (simp add: run_def)
qed

lemma reachable_demo: "reachable exact_arith demo_server"
  using reachable_run [OF reachable_initial] demo_server_run by metis

text \<open>
  Claim C8. When a start request succeeds while a session is active, the timer of that
  prior session is not cancelled: its handle is armed before the call and is still armed
  after it, while the session slot now holds the new session, which owns a different,
  newly armed handle.
\<close>

theorem start_leaves_old_timer_armed:
  assumes "reachable fp s" and "currentSession s = Some c" and "active c"
    and "fst (api_start fp n m req s) = Inr r"
  shows "\<exists>h c'. timer c = Some h \<and> h \<in> armed s \<and>
           h \<in> armed (snd (api_start fp n m req s)) \<and>
           currentSession (snd (api_start fp n m req s)) = Some c' \<and>
           id_s c' = res_sessionId r \<and> active c' \<and>
           timer c' = Some (nextTimer s) \<and> nextTimer s \<noteq> h \<and>
           nextTimer s \<in> armed (snd (api_start fp n m req s))"
proof -
  from assms(1) have inv: "timer_inv s" by (rule reachable_timer_inv)
  with assms(2,3) obtain h where h: "timer c = Some h" "h \<in> armed s" "h < nextTimer s"
    by (auto simp: timer_inv_def)
  show ?thesis
  proof (cases req rule: api_start_cases)
    case bad_options
    with assms(4) show ?thesis by (simp add: api_start_invalid_options)
  next
    case bad_duration
    with assms(4) show ?thesis by (simp add: api_start_invalid_duration)
  next
    case (ok opts r')
    from assms(4) h show ?thesis
      by (auto simp: api_start_ok [OF ok] armed_def)
  qed
qed

theorem start_leaves_old_timer_armed_witness:
  "reachable exact_arith demo_server \<and> currentSession demo_server = Some demo_session \<and>
   active demo_session \<and>
   fst (api_start exact_arith 1800 1800 demo_request demo_server) =
     Inr \<lparr>res_sessionId = ''sess_1800'', res_endAt = Finite 6800, res_options = [''A'', ''B'']\<rparr> \<and>
   timer demo_session = Some 0 \<and>
   0 \<in> armed (snd (api_start exact_arith 1800 1800 demo_request demo_server))"
proof -
  have h1: "reachable exact_arith demo_server" by (rule reachable_demo)
  have h2: "currentSession demo_server = Some demo_session" by (rule demo_current)
  have h3: "active demo_session" by (simp add: demo_session_def)
  have h4: "fst (api_start exact_arith 1800 1800 demo_request demo_server) =
     Inr \<lparr>res_sessionId = ''sess_1800'', res_endAt = Finite 6800, res_options = [''A'', ''B'']\<rparr>"
    by code_simp
  have h5: "timer demo_session = Some 0" by (simp add: demo_session_def)
  from start_leaves_old_timer_armed [OF h1 h2 h3 h4] h1 h2 h3 h4 h5
  show ?thesis by auto
qed

subsection \<open>Session ids\<close>

lemma digit_char_inj: "a < 10 \<Longrightarrow> b < 10 \<Longrightarrow> digit_char a = digit_char b \<Longrightarrow> a = b"
proof -
  assume a: "a < 10" and b: "b < 10" and e: "digit_char a = digit_char b"
  have d: "distinct ''0123456789''" by simp
  have "a < length ''0123456789''" "b < length ''0123456789''" using a b by simp_all
  with d e show "a = b" by (simp add: digit_char_def nth_eq_iff_index_eq)
qed

lemma digit_char_range: "d < 10 \<Longrightarrow> digit_char d \<in> set ''0123456789''"
  unfolding digit_char_def by (rule nth_mem) simp

lemma digits_nonempty: "digits n \<noteq> []"
  by (subst digits.simps) simp

lemma digits_chars: "set (digits n) \<subseteq> set ''0123456789''"
proof (induction n rule: digits.induct)
  case (1 n)
  show ?case
  proof (cases "n < 10")
    case True
    then show ?thesis using digit_char_range [of n] by (subst digits.simps) simp
  next
    case False
    have "n mod 10 < 10" by simp
    then have "digit_char (n mod 10) \<in> set ''0123456789''" by (rule digit_char_range)
    with False "1.IH" show ?thesis by (subst digits.simps) simp
  qed
qed

lemma digits_inj: "digits n = digits m \<Longrightarrow> n = m"
proof (induction n arbitrary: m rule: digits.induct)
  case (1 n)
  show ?case
  proof (cases "n < 10")
    case n: True
    show ?thesis
    proof (cases "m < 10")
      case True
      with n "1.prems" show ?thesis
        by (simp add: digits.simps [of n] digits.simps [of m] digit_char_inj)
    next
      case False
      with n "1.prems" digits_nonempty [of "m div 10"] show ?thesis
        by (simp add: digits.simps [of n] digits.simps [of m])
    qed
  next
    case n: False
    show ?thesis
    proof (cases "m < 10")
      case True
      with n "1.prems" digits_nonempty [of "n div 10"] show ?thesis
        by (simp add: digits.simps [of n] digits.simps [of m])
    next
      case False
      with n "1.prems" have e: "digits (n div 10) = digits (m div 10)"
        and l: "digit_char (n mod 10) = digit_char (m mod 10)"
        by (simp_all add: digits.simps [of n] digits.simps [of m])
      from n e have "n div 10 = m div 10" by (rule "1.IH")
      moreover from l have "n mod 10 = m mod 10" by (simp add: digit_char_inj)
      ultimately show ?thesis by (metis div_mult_mod_eq)
    qed
  qed
qed

lemma number_toString_inj: "number_toString i = number_toString j \<Longrightarrow> i = j"
proof -
  assume e: "number_toString i = number_toString j"
  have minus: "CHR ''-'' \<notin> set (digits k)" for k
    using digits_chars [of k] by auto
  have no: "CHR ''-'' # digits a \<noteq> digits b" for a b
    using minus [of b] by (metis list.set_intros(1))
  show "i = j"
  proof (cases "i < 0")
    case i: True
    show ?thesis
    proof (cases "j < 0")
      case True
      with i e have "digits (nat (- i)) = digits (nat (- j))" by (simp add: number_toString_def)
      then have "nat (- i) = nat (- j)" by (rule digits_inj)
      with i True show ?thesis by simp
    next
      case False
      with i e no show ?thesis by (simp add: number_toString_def)
    qed
  next
    case i: False
    show ?thesis
    proof (cases "j < 0")
      case True
      with i e no [of "nat (- j)" "nat i"] show ?thesis by (simp add: number_toString_def)
    next
      case False
      with i e have "digits (nat i) = digits (nat j)" by (simp add: number_toString_def)
      then have "nat i = nat j" by (rule digits_inj)
      with i False show ?thesis by simp
    qed
  qed
qed

lemma api_start_Inr:
  assumes "fst (api_start fp n m req s) = Inr r"
  shows "res_sessionId r = ''sess_'' @ number_toString n \<and>
         current_id (snd (api_start fp n m req s)) = Some (res_sessionId r)"
proof (cases req rule: api_start_cases)
  case bad_options
  with assms show ?thesis by (simp add: api_start_invalid_options)
next
  case bad_duration
  with assms show ?thesis by (simp add: api_start_invalid_duration)
next
  case (ok opts r')
  from assms show ?thesis by (auto simp: api_start_ok [OF ok] current_id_def)
qed

lemma current_id_endSession: "current_id (endSession reason s) = current_id s"
  by (cases "currentSession s") (simp_all add: current_id_def endSession_None endSession_Some)

lemma current_id_vote: "current_id (state (on_vote cb p s)) = current_id s"
proof (cases "currentSession s")
  case None
  then show ?thesis by (simp add: on_vote_state try_block_no_session)
next
  case (Some c)
  with try_block_session [OF Some, of cb p] show ?thesis
    by (auto simp: current_id_def on_vote_state)
qed

lemma current_id_fire: "current_id (fireTimer h s) = current_id s"
  by (simp add: fireTimer_def current_id_endSession) (simp add: current_id_def clearTimeout_def)

lemma current_id_step: "\<not> is_start i \<Longrightarrow> current_id (step fp i s) = current_id s"
  by (cases i) (simp_all add: current_id_endSession current_id_vote current_id_fire)

text \<open>
  Claim C9, as stated: any two successful start requests are assigned distinct ids. It
  fails: the id is built from the clock alone, so a second request served within the same
  millisecond as the first is assigned the same id.
\<close>

theorem session_id_counterexample:
  "fst (api_start exact_arith 1700 1700 demo_request initial) =
     Inr \<lparr>res_sessionId = ''sess_1700'', res_endAt = Finite 6700, res_options = [''A'', ''B'']\<rparr> \<and>
   fst (api_start exact_arith 1700 1700 demo_request (snd (api_start exact_arith 1700 1700 demo_request initial))) =
     Inr \<lparr>res_sessionId = ''sess_1700'', res_endAt = Finite 6700, res_options = [''A'', ''B'']\<rparr>"
  by code_simp

text \<open>
  Claim C9, amended. The id of a session is \<open>sess_\<close> followed by the decimal clock
  reading at its creation, so two successful start requests are assigned distinct ids
  exactly when their clock readings differ. The id assigned is the id of the session
  installed in the slot, and no input other than a start request changes the id of the
  current session.
\<close>

theorem session_id_from_clock:
  assumes "fst (api_start fp n1 m1 req1 s1) = Inr r1" and "fst (api_start fp n2 m2 req2 s2) = Inr r2"
  shows "(res_sessionId r1 \<noteq> res_sessionId r2) = (n1 \<noteq> n2) \<and>
         current_id (snd (api_start fp n1 m1 req1 s1)) = Some (res_sessionId r1) \<and>
         (\<not> is_start i \<longrightarrow> current_id (step fp i s) = current_id s)"
  using api_start_Inr [OF assms(1)] api_start_Inr [OF assms(2)]
  by (auto simp: current_id_step dest: number_toString_inj)

theorem session_id_from_clock_witness:
  "fst (api_start exact_arith 1700 1700 demo_request initial) =
     Inr \<lparr>res_sessionId = ''sess_1700'', res_endAt = Finite 6700, res_options = [''A'', ''B'']\<rparr> \<and>
   fst (api_start exact_arith 1800 1800 demo_request demo_server) =
     Inr \<lparr>res_sessionId = ''sess_1800'', res_endAt = Finite 6800, res_options = [''A'', ''B'']\<rparr> \<and>
   \<not> is_start (End ''manual'') \<and>
   ''sess_1700'' \<noteq> ''sess_1800'' \<and>
   current_id (step exact_arith (End ''manual'') demo_server) = current_id demo_server"
proof -
  have h1: "fst (api_start exact_arith 1700 1700 demo_request initial) =
     Inr \<lparr>res_sessionId = ''sess_1700'', res_endAt = Finite 6700, res_options = [''A'', ''B'']\<rparr>"
    by code_simp
  have h2: "fst (api_start exact_arith 1800 1800 demo_request demo_server) =
     Inr \<lparr>res_sessionId = ''sess_1800'', res_endAt = Finite 6800, res_options = [''A'', ''B'']\<rparr>"
    by code_simp
  have h3: "\<not> is_start (End ''manual'')" by simp
  from session_id_from_clock [OF h1 h2, of "End ''manual''" demo_server] h1 h2 h3
  show ?thesis by simp
qed

subsection \<open>A new session and its status\<close>

text \<open>
  For distinct options none of which is \<open>__proto__\<close>, \<open>newTally\<close> holds exactly the
  options, each at zero, and the status read after a successful start reports the session
  as active with these options and this tally.
\<close>

lemma update_fresh: "k \<notin> fst ` set t \<Longrightarrow> AList.update k v t = t @ [(k, v)]"
  by (induction t) auto

lemma fold_prop_set_fresh:
  "distinct opts \<Longrightarrow> ''__proto__'' \<notin> set opts \<Longrightarrow> set opts \<inter> fst ` set t = {} \<Longrightarrow>
   fold (\<lambda>opt t. prop_set opt (Count 0) t) opts t = t @ map (\<lambda>opt. (opt, Count 0)) opts"
proof (induction opts arbitrary: t)
  case Nil
  show ?case by simp
next
  case (Cons a opts)
  from Cons.prems have a: "a \<noteq> ''__proto__''" "a \<notin> fst ` set t" by auto
  then have step: "prop_set a (Count 0) t = t @ [(a, Count 0)]"
    by (simp add: prop_set_def update_fresh)
  from Cons.prems have "set opts \<inter> fst ` set (t @ [(a, Count 0)]) = {}" by auto
  with Cons.prems Cons.IH [of "t @ [(a, Count 0)]"] show ?case
    by (simp add: step)
qed

lemma newTally_distinct:
  "distinct opts \<Longrightarrow> ''__proto__'' \<notin> set opts \<Longrightarrow>
   newTally opts = map (\<lambda>opt. (opt, Count 0)) opts"
  using fold_prop_set_fresh [of opts "[]"] by (simp add: newTally_def)

lemma fold_prop_set_map_of:
  "''__proto__'' \<notin> set opts \<Longrightarrow>
   map_of (fold (\<lambda>opt t. prop_set opt (Count 0) t) opts t) k =
     (if k \<in> set opts then Some (Count 0) else map_of t k)"
proof (induction opts arbitrary: t)
  case Nil
  show ?case by simp
next
  case (Cons a opts)
  from Cons.prems have a: "a \<noteq> ''__proto__''" by auto
  from Cons.prems Cons.IH [of "prop_set a (Count 0) t"] a show ?case
    by (auto simp: prop_set_def update_conv')
qed

lemma tally_sum_update_zero:
  "tally_sum t = 0 \<Longrightarrow> tally_sum (AList.update k (Count 0) t) = 0"
  by (induction t) (auto simp: tally_sum_def)

lemma fold_prop_set_sum:
  "tally_sum t = 0 \<Longrightarrow> tally_sum (fold (\<lambda>opt t. prop_set opt (Count 0) t) opts t) = 0"
proof (induction opts arbitrary: t)
  case Nil
  then show ?case by simp
next
  case (Cons a opts)
  from Cons.prems have "tally_sum (prop_set a (Count 0) t) = 0"
    by (simp add: prop_set_def tally_sum_update_zero)
  then show ?case using Cons.IH by simp
qed

lemma newTally_map_of:
  "''__proto__'' \<notin> set opts \<Longrightarrow>
   map_of (newTally opts) k = (if k \<in> set opts then Some (Count 0) else None)"
  by (simp add: newTally_def fold_prop_set_map_of)

lemma newTally_sum: "tally_sum (newTally opts) = 0"
  unfolding newTally_def by (rule fold_prop_set_sum) (simp add: tally_sum_def)

lemma start_then_status:
  assumes "req_options req = Some opts" and "2 \<le> length opts" and "distinct opts"
    and "''__proto__'' \<notin> set opts" and "req_durationSeconds req = Finite r" and "0 < r"
  shows "api_status (snd (api_start fp n m req s)) =
           Status (''sess_'' @ number_toString n) opts
             (fadd fp (Finite (of_int m)) (fmul fp (Finite r) (Finite 1000))) True
             (map (\<lambda>opt. (opt, Count 0)) opts)"
  using assms
  by (simp add: api_start_ok [OF assms(1,2,5,6)] api_status_def newTally_distinct)

text \<open>
  Claim C5 says that after a start with at least two distinct string options the status
  shows a tally whose keys are exactly the options, each at zero. With the options
  \<open>__proto__\<close> and A the assignment \<open>t['__proto__'] = 0\<close> stores nothing, and the
  status shows a tally with the single key A.
\<close>

theorem start_then_status_proto:
  "api_status (snd (api_start exact_arith 1700 1700 proto_request initial)) =
     Status ''sess_1700'' [''__proto__'', ''A''] (Finite 6700) True [(''A'', Count 0)]"
  by code_simp

theorem start_then_status_proto_witness:
  "req_options proto_request = Some [''__proto__'', ''A''] \<and>
   distinct [''__proto__'', ''A''] \<and>
   isFinite (req_durationSeconds proto_request) \<and>
   \<not> le_zero (req_durationSeconds proto_request) \<and>
   api_status (snd (api_start exact_arith 1700 1700 proto_request initial)) =
     Status ''sess_1700'' [''__proto__'', ''A''] (Finite 6700) True [(''A'', Count 0)]"
  using start_then_status_proto by (simp add: proto_request_def)

subsection \<open>The tally counts the ledger\<close>

lemma tally_sum_update_succ:
  "map_of t k = Some (Count n) \<Longrightarrow>
   tally_sum (AList.update k (Count (Suc n)) t) = Suc (tally_sum t)"
  by (induction t) (auto simp: tally_sum_def)

lemma counted_new:
  "''__proto__'' \<notin> set opts \<Longrightarrow>
   counted \<lparr>id_s = i, options = opts, endAt = e, active = a, votes = [], tally = newTally opts,
            timer = h\<rparr>"
  by (simp add: counted_def newTally_map_of newTally_sum ledger_count_def)

lemma counted_admit:
  assumes "counted c" and "ch \<in> set (options c)" and "''__proto__'' \<notin> set (options c)"
    and "map_of (votes c) d = None"
  shows "counted (c\<lparr>votes := AList.update d ch (votes c),
                    tally := prop_set ch (incremented (tally c) ch) (tally c)\<rparr>)"
proof -
  let ?n = "ledger_count (votes c) ch"
  from assms(1,2) have own: "map_of (tally c) ch = Some (Count ?n)"
    by (simp add: counted_def)
  then have inc: "incremented (tally c) ch = Count (Suc ?n)"
    by (simp add: incremented_def prop_get_def)
  from assms(2,3) have "ch \<noteq> ''__proto__''" by auto
  then have set: "prop_set ch (Count (Suc ?n)) (tally c) = AList.update ch (Count (Suc ?n)) (tally c)"
    by (simp add: prop_set_def)
  from assms(4) have "d \<notin> fst ` set (votes c)"
    by (simp add: map_of_eq_None_iff)
  then have vs: "AList.update d ch (votes c) = votes c @ [(d, ch)]"
    by (rule update_fresh)
  have cnt: "ledger_count (votes c @ [(d, ch)]) k =
             (if k = ch then ledger_count (votes c) k + 1 else ledger_count (votes c) k)" for k
    by (simp add: ledger_count_def)
  from assms(1) have sum: "tally_sum (tally c) = length (votes c)"
    by (simp add: counted_def)
  from assms(1) have tab: "map_of (tally c) k =
      (if k \<in> set (options c) then Some (Count (ledger_count (votes c) k)) else None)" for k
    by (simp add: counted_def)
  show ?thesis
    unfolding counted_def
    using assms(2) sum
    by (simp add: inc set vs update_conv' cnt tab tally_sum_update_succ [OF own])
qed

lemma counted_inv_start: "counted_inv (snd (api_start fp n m req s))" if "counted_inv s"
proof (cases req rule: api_start_cases)
  case bad_options
  with that show ?thesis by (simp add: api_start_invalid_options)
next
  case bad_duration
  with that show ?thesis by (simp add: api_start_invalid_duration)
next
  case (ok opts r)
  show ?thesis
    by (simp add: api_start_ok [OF ok] counted_inv_def counted_new)
qed

lemma counted_inv_endSession: "counted_inv s \<Longrightarrow> counted_inv (endSession reason s)"
  by (cases "currentSession s")
     (simp_all add: endSession_None endSession_Some counted_inv_def counted_def)

lemma counted_inv_vote: "counted_inv (state (on_vote cb p s))" if "counted_inv s"
proof (cases "state (on_vote cb p s) = s")
  case True
  with that show ?thesis by simp
next
  case False
  then obtain c v d ch where adm: "currentSession s = Some c" "p = Parsed v"
      "ch \<in> set (options c)" "map_of (votes c) d = None"
      "state (on_vote cb p s) = admit c d ch s"
    by (auto simp: on_vote_state try_block_def split: payload.splits option.splits if_splits)
  show ?thesis
  proof (cases "''__proto__'' \<in> set (options c)")
    case True
    then show ?thesis by (simp add: adm(5) admit_current counted_inv_def)
  next
    case False
    with that adm(1) have "counted c" by (simp add: counted_inv_def)
    from counted_admit [OF this adm(3) False adm(4)] show ?thesis
      by (simp add: adm(5) admit_current counted_inv_def)
  qed
qed

lemma counted_inv_fire: "counted_inv s \<Longrightarrow> counted_inv (fireTimer h s)"
proof -
  assume "counted_inv s"
  then have "counted_inv (clearTimeout h s)" by (simp add: counted_inv_def clearTimeout_def)
  then have "counted_inv (endSession ''time_up'' (clearTimeout h s))"
    by (rule counted_inv_endSession)
  with \<open>counted_inv s\<close> show ?thesis by (simp add: fireTimer_def)
qed

lemma counted_inv_step: "counted_inv s \<Longrightarrow> counted_inv (step fp i s)"
  by (cases i)
     (simp_all add: counted_inv_start counted_inv_vote counted_inv_endSession counted_inv_fire)

lemma reachable_counted_inv: "reachable fp s \<Longrightarrow> counted_inv s"
proof (induction rule: reachable.induct)
  case reachable_initial
  show ?case by (simp add: counted_inv_def initial_def)
next
  case (reachable_step s i)
  then show ?case by (simp add: counted_inv_step)
qed

lemma counted_tally_from_ledger:
  "counted c \<Longrightarrow> tally_from_ledger c"
  by (simp add: counted_def tally_from_ledger_def prop_get_def list_all_iff)

lemma tally_from_ledger_without_proto:
  "reachable fp s \<Longrightarrow> currentSession s = Some c \<Longrightarrow> ''__proto__'' \<notin> set (options c) \<Longrightarrow>
   tally_from_ledger c \<and> fst ` set (tally c) = set (options c)"
proof -
  assume r: "reachable fp s" and c: "currentSession s = Some c" and p: "''__proto__'' \<notin> set (options c)"
  from reachable_counted_inv [OF r] c p have cnt: "counted c" by (simp add: counted_inv_def)
  then have "dom (map_of (tally c)) = set (options c)"
    by (auto simp: counted_def dom_def)
  then have "fst ` set (tally c) = set (options c)" by (simp add: dom_map_of_conv_image_fst)
  with cnt show ?thesis by (simp add: counted_tally_from_ledger)
qed

text \<open>
  Claim C1 says that in every reachable state the tally is the ledger counted by option.
  In the session over \<open>__proto__\<close> and A the vote for \<open>__proto__\<close> is admitted into
  the ledger, but the increment \<open>tally['__proto__'] = ...\<close> stores nothing: the
  published tally stays at A: 0 with one entry in the ledger.
\<close>

theorem tally_not_from_ledger_proto:
  "reachable exact_arith (run exact_arith [Start 1700 1700 proto_request, Vote True (Parsed proto_vote)] initial) \<and>
   api_results (run exact_arith [Start 1700 1700 proto_request, Vote True (Parsed proto_vote)] initial) =
     Results ''sess_1700'' True [(''A'', Count 0)] \<and>
   map_option votes
     (currentSession (run exact_arith [Start 1700 1700 proto_request, Vote True (Parsed proto_vote)] initial)) =
     Some [(''dev1'', ''__proto__'')] \<and>
   map_option tally_from_ledger
     (currentSession (run exact_arith [Start 1700 1700 proto_request, Vote True (Parsed proto_vote)] initial)) =
     Some False"
proof -
  have "reachable exact_arith (run exact_arith [Start 1700 1700 proto_request, Vote True (Parsed proto_vote)] initial)"
    by (rule reachable_run [OF reachable_initial])
  moreover have "api_results (run exact_arith [Start 1700 1700 proto_request, Vote True (Parsed proto_vote)] initial) =
     Results ''sess_1700'' True [(''A'', Count 0)]"
    by code_simp
  moreover have "map_option votes
     (currentSession (run exact_arith [Start 1700 1700 proto_request, Vote True (Parsed proto_vote)] initial)) =
     Some [(''dev1'', ''__proto__'')]"
    by code_simp
  moreover have "map_option tally_from_ledger
     (currentSession (run exact_arith [Start 1700 1700 proto_request, Vote True (Parsed proto_vote)] initial)) =
     Some False"
    by code_simp
  ultimately show ?thesis by simp
qed

theorem tally_not_from_ledger_proto_witness:
  "isFinite (req_durationSeconds proto_request) \<and>
   \<not> le_zero (req_durationSeconds proto_request) \<and>
   choice proto_vote = Some ''__proto__'' \<and>
   api_results (run exact_arith [Start 1700 1700 proto_request, Vote True (Parsed proto_vote)] initial) =
     Results ''sess_1700'' True [(''A'', Count 0)] \<and>
   tally_sum [(''A'', Count 0)] \<noteq> length [(''dev1'', ''__proto__'')]"
  using tally_not_from_ledger_proto
  by (simp add: proto_request_def proto_vote_def tally_sum_def)

end
